theory Spec2Isabelle
  imports Main "HOL-Library.Sublist" "HOL-Library.Multiset"
begin

section \<open>The charter search, filter and sort of StakeholderMapsPage.tsx\<close>

text \<open>
  The page \<^verbatim>\<open>src/pages/StakeholderMapsPage.tsx\<close> derives the list it shows,
  \<^verbatim>\<open>filteredCharters\<close>, from the charters of \<^verbatim>\<open>useCharters()\<close> and four
  pieces of component state: \<^verbatim>\<open>search\<close>, \<^verbatim>\<open>sortBy\<close>, \<^verbatim>\<open>sortDirection\<close> and
  \<^verbatim>\<open>departmentFilter\<close> (lines 58 to 128). This theory embeds that computation.

  JavaScript strings are modelled as \<^typ>\<open>string\<close>, one \<^typ>\<open>char\<close> per code unit,
  for text whose code units lie in U+0000 to U+00FF; on that range \<^verbatim>\<open>toLowerCase\<close>
  and \<^verbatim>\<open>trim\<close> are the functions written below.
\<close>

subsection \<open>Data\<close>

text \<open>The \<^verbatim>\<open>profiles\<close> object joined to a charter or to a stakeholder.\<close>

record profile =
  first_name :: string
  last_name :: string

text \<open>
  An element of \<^verbatim>\<open>charter.stakeholders\<close>. The types \<^verbatim>\<open>StakeholderDepartment\<close> and
  \<^verbatim>\<open>StakeholderRole\<close> are string unions declared outside the two source files; at run
  time their values are strings, and the code only lower-cases and compares them.
  The field \<^verbatim>\<open>profiles\<close> may be absent.
\<close>

record stakeholder =
  email :: string
  department :: string
  role :: string
  s_profiles :: "profile option"

text \<open>
  A \<^verbatim>\<open>CharterSummary\<close>, with the fields the computation reads. \<^verbatim>\<open>created_at\<close> holds
  the number \<^verbatim>\<open>new Date(created_at).getTime()\<close> yields (milliseconds, a timestamp).
\<close>

record charter =
  charter_id :: string
  title :: string
  description :: "string option"
  created_at :: int
  profiles :: "profile option"
  stakeholders :: "stakeholder list"

datatype sort_key = Title | Steward | Date

datatype sort_direction = Asc | Desc

text \<open>The component state read by the computation (lines 23 to 26).\<close>

record config =
  search :: string
  sortBy :: sort_key
  sortDirection :: sort_direction
  departmentFilter :: string

subsection \<open>String operations of the runtime\<close>

text \<open>
  \<^verbatim>\<open>String.prototype.toLowerCase\<close> on code units up to U+00FF: the letters A to Z and
  the Latin-1 capitals U+00C0 to U+00DE (without the multiplication sign U+00D7) move
  up by 32; every other code unit is kept.
\<close>

definition lower_char :: "char \<Rightarrow> char" where
  "lower_char c =
     (let n = (of_char c :: nat)
      in if (65 \<le> n \<and> n \<le> 90) \<or> (192 \<le> n \<and> n \<le> 222 \<and> n \<noteq> 215)
         then char_of (n + 32) else c)"

definition toLowerCase :: "string \<Rightarrow> string" where
  "toLowerCase s = map lower_char s"

text \<open>
  \<^verbatim>\<open>String.prototype.includes\<close>: the argument occurs at some position of the
  receiver. The empty argument occurs in every string.
\<close>

fun str_includes :: "string \<Rightarrow> string \<Rightarrow> bool" where
  "str_includes [] t = (t = [])"
| "str_includes (x # xs) t = (prefix t (x # xs) \<or> str_includes xs t)"

text \<open>
  \<^verbatim>\<open>String.prototype.trim\<close>: white space and line terminators are removed from both
  ends. Up to U+00FF these are U+0009 to U+000D, the space and the no-break space.
\<close>

definition is_space :: "char \<Rightarrow> bool" where
  "is_space c =
     (let n = (of_char c :: nat) in (9 \<le> n \<and> n \<le> 13) \<or> n = 32 \<or> n = 160)"

definition trim :: "string \<Rightarrow> string" where
  "trim s = rev (dropWhile is_space (rev (dropWhile is_space s)))"

text \<open>The template literal \<^verbatim>\<open>`${p.first_name} ${p.last_name}`\<close>.\<close>

definition full_name :: "profile \<Rightarrow> string" where
  "full_name p = first_name p @ '' '' @ last_name p"

subsection \<open>The search filter (lines 64 to 92)\<close>

text \<open>
  The callback of \<^verbatim>\<open>charter.stakeholders.some\<close>. An absent \<^verbatim>\<open>profiles\<close> makes
  \<^verbatim>\<open>nameMatch\<close> falsy.
\<close>

definition stakeholderMatches :: "string \<Rightarrow> stakeholder \<Rightarrow> bool" where
  "stakeholderMatches searchLower s =
     (let emailMatch = str_includes (toLowerCase (email s)) searchLower;
          departmentMatch = str_includes (toLowerCase (department s)) searchLower;
          roleMatch = str_includes (toLowerCase (role s)) searchLower;
          nameMatch = (case s_profiles s of
                         None \<Rightarrow> False
                       | Some p \<Rightarrow> str_includes (toLowerCase (full_name p)) searchLower)
      in emailMatch \<or> departmentMatch \<or> nameMatch \<or> roleMatch)"

text \<open>
  The callback of the first \<^verbatim>\<open>filtered.filter\<close>. \<^verbatim>\<open>charter.description?.\<close> is
  undefined, hence falsy, when the description is absent; so is \<^verbatim>\<open>stewardMatch\<close>
  when the charter has no \<^verbatim>\<open>profiles\<close>.
\<close>

definition searchMatches :: "string \<Rightarrow> charter \<Rightarrow> bool" where
  "searchMatches searchLower c =
     (let titleMatch = str_includes (toLowerCase (title c)) searchLower;
          descriptionMatch = (case description c of
                                None \<Rightarrow> False
                              | Some d \<Rightarrow> str_includes (toLowerCase d) searchLower);
          stakeholderMatch = list_ex (stakeholderMatches searchLower) (stakeholders c);
          stewardMatch = (case profiles c of
                            None \<Rightarrow> False
                          | Some p \<Rightarrow> str_includes (toLowerCase (full_name p)) searchLower)
      in titleMatch \<or> descriptionMatch \<or> stakeholderMatch \<or> stewardMatch)"

text \<open>\<^verbatim>\<open>if (search) { ... }\<close>: a string is truthy when it is not empty.\<close>

definition applySearch :: "config \<Rightarrow> charter list \<Rightarrow> charter list" where
  "applySearch cfg filtered =
     (if search cfg \<noteq> []
      then filter (searchMatches (toLowerCase (search cfg))) filtered
      else filtered)"

subsection \<open>The department filter (lines 95 to 99)\<close>

definition departmentMatches :: "string \<Rightarrow> charter \<Rightarrow> bool" where
  "departmentMatches dept c = list_ex (\<lambda>s. department s = dept) (stakeholders c)"

definition applyDepartment :: "config \<Rightarrow> charter list \<Rightarrow> charter list" where
  "applyDepartment cfg filtered =
     (if departmentFilter cfg \<noteq> []
      then filter (departmentMatches (departmentFilter cfg)) filtered
      else filtered)"

subsection \<open>The comparator (lines 102 to 125)\<close>

text \<open>
  \<^verbatim>\<open>String.prototype.localeCompare\<close> depends on the collation of the runtime's
  locale, so it is a parameter \<open>lc\<close> of everything below: a negative number, zero or
  a positive number.
\<close>

definition stewardName :: "charter \<Rightarrow> string" where
  "stewardName c = (case profiles c of None \<Rightarrow> [] | Some p \<Rightarrow> trim (full_name p))"

text \<open>The \<^verbatim>\<open>switch (sortBy)\<close>: the value of \<^verbatim>\<open>comparison\<close> after it.\<close>

fun comparison :: "(string \<Rightarrow> string \<Rightarrow> int) \<Rightarrow> sort_key \<Rightarrow> charter \<Rightarrow> charter \<Rightarrow> int" where
  "comparison lc Title a b = lc (title a) (title b)"
| "comparison lc Steward a b = lc (stewardName a) (stewardName b)"
| "comparison lc Date a b = created_at b - created_at a"

text \<open>The value the comparator returns (line 124).\<close>

definition compareCharters :: "(string \<Rightarrow> string \<Rightarrow> int) \<Rightarrow> config \<Rightarrow> charter \<Rightarrow> charter \<Rightarrow> int" where
  "compareCharters lc cfg a b =
     (if sortDirection cfg = Asc then comparison lc (sortBy cfg) a b
      else - comparison lc (sortBy cfg) a b)"

subsection \<open>Array.prototype.sort\<close>

text \<open>
  \<^verbatim>\<open>Array.prototype.sort\<close> is stable (ECMAScript 2019) and, for a consistent
  comparator, leaves the array ordered by it; the order of the comparator calls is
  left to the engine. Insertion from the right is one such algorithm: an element
  goes in front of the first element of the sorted rest that it does not exceed.
  Every stable sort returns the same list for a consistent comparator (lemma
  \<open>sort_cmp_unique\<close> below).
\<close>

fun insort_cmp :: "('a \<Rightarrow> 'a \<Rightarrow> int) \<Rightarrow> 'a \<Rightarrow> 'a list \<Rightarrow> 'a list" where
  "insort_cmp cmp x [] = [x]"
| "insort_cmp cmp x (y # ys) =
     (if cmp x y \<le> 0 then x # y # ys else y # insort_cmp cmp x ys)"

fun sort_cmp :: "('a \<Rightarrow> 'a \<Rightarrow> int) \<Rightarrow> 'a list \<Rightarrow> 'a list" where
  "sort_cmp cmp [] = []"
| "sort_cmp cmp (x # xs) = insort_cmp cmp x (sort_cmp cmp xs)"

text \<open>
  A consistent comparator in the sense of ECMAScript: the sign flips when the
  arguments are swapped, and not-greater is transitive.
\<close>

definition consistent_comparator :: "('a \<Rightarrow> 'a \<Rightarrow> int) \<Rightarrow> bool" where
  "consistent_comparator cmp \<longleftrightarrow>
     (\<forall>a b. sgn (cmp a b) = - sgn (cmp b a)) \<and>
     (\<forall>a b c. cmp a b \<le> 0 \<and> cmp b c \<le> 0 \<longrightarrow> cmp a c \<le> 0)"

subsection \<open>filteredCharters (lines 58 to 128)\<close>

text \<open>
  The value of the \<^verbatim>\<open>useMemo\<close> callback, the operation the specification calls
  \<^verbatim>\<open>filterAndSort\<close>. \<^verbatim>\<open>charters\<close> is \<open>None\<close> when it is null or undefined; an
  empty array is truthy and takes the second branch.
\<close>

definition filterAndSort :: "(string \<Rightarrow> string \<Rightarrow> int) \<Rightarrow> charter list option \<Rightarrow> config \<Rightarrow> charter list" where
  "filterAndSort lc charters cfg =
     (case charters of
        None \<Rightarrow> []
      | Some cs \<Rightarrow>
          sort_cmp (compareCharters lc cfg) (applyDepartment cfg (applySearch cfg cs)))"

subsection \<open>The same lines with the arrays in a store\<close>

text \<open>
  The callback builds arrays and sorts one of them in place. To say which array the
  sort writes to, arrays live in a store: the array at address \<open>a\<close> of the store
  \<open>h\<close> is \<open>h ! a\<close>, and a new array gets the next free address. The elements are
  the charters themselves: no line of the callback assigns to a property of a charter
  or of a stakeholder, and \<^verbatim>\<open>toLowerCase\<close>, \<^verbatim>\<open>includes\<close>, \<^verbatim>\<open>some\<close>,
  \<^verbatim>\<open>trim\<close> and \<^verbatim>\<open>localeCompare\<close> build new values.
\<close>

type_synonym store = "charter list list"

definition alloc :: "store \<Rightarrow> charter list \<Rightarrow> store \<times> nat" where
  "alloc h v = (h @ [v], length h)"

text \<open>
  \<^verbatim>\<open>return []\<close> and \<^verbatim>\<open>[...charters]\<close> allocate; so does each \<^verbatim>\<open>filter\<close>, and the
  variable \<^verbatim>\<open>filtered\<close> then refers to the new array; \<^verbatim>\<open>filtered.sort\<close> overwrites
  the array \<^verbatim>\<open>filtered\<close> refers to. The result is the new store and the address
  returned.
\<close>

definition filteredCharters :: "(string \<Rightarrow> string \<Rightarrow> int) \<Rightarrow> store \<Rightarrow> nat option \<Rightarrow> config \<Rightarrow> store \<times> nat" where
  "filteredCharters lc h charters cfg =
     (case charters of
        None \<Rightarrow> alloc h []
      | Some a \<Rightarrow>
          let (h1, filtered) = alloc h (h ! a);
              (h2, filtered) =
                (if search cfg \<noteq> []
                 then alloc h1 (filter (searchMatches (toLowerCase (search cfg))) (h1 ! filtered))
                 else (h1, filtered));
              (h3, filtered) =
                (if departmentFilter cfg \<noteq> []
                 then alloc h2 (filter (departmentMatches (departmentFilter cfg)) (h2 ! filtered))
                 else (h2, filtered))
          in (h3[filtered := sort_cmp (compareCharters lc cfg) (h3 ! filtered)], filtered))"

text \<open>
  The argument \<^verbatim>\<open>charters\<close> is absent or refers to an array of the store; a
  reference never dangles.
\<close>

definition live :: "store \<Rightarrow> nat option \<Rightarrow> bool" where
  "live h charters = (case charters of None \<Rightarrow> True | Some a \<Rightarrow> a < length h)"

definition deref :: "store \<Rightarrow> nat option \<Rightarrow> charter list option" where
  "deref h charters = map_option (\<lambda>a. h ! a) charters"

subsection \<open>The specification's wording\<close>

text \<open>
  Two strings are equal up to case when they have the same length and agree position
  by position after lower-casing; \<open>field\<close> contains \<open>s\<close> as a case-insensitive
  substring when some window of \<open>field\<close> is equal to \<open>s\<close> up to case.
\<close>

definition ci_equal :: "string \<Rightarrow> string \<Rightarrow> bool" where
  "ci_equal a b = list_all2 (\<lambda>x y. lower_char x = lower_char y) a b"

definition ci_contains :: "string \<Rightarrow> string \<Rightarrow> bool" where
  "ci_contains field s =
     list_ex (\<lambda>i. ci_equal (take (length s) (drop i field)) s) [0..<Suc (length field)]"



text \<open>
  Step 2 of the specification: with no department filter every charter passes, with
  one a charter passes when some stakeholder's department equals it.
\<close>

definition spec_department_retains :: "string \<Rightarrow> charter \<Rightarrow> bool" where
  "spec_department_retains dept c \<longleftrightarrow>
     dept = [] \<or> list_ex (\<lambda>st. department st = dept) (stakeholders c)"

text \<open>
  A trimmed string, in the specification's sense: the white space in front is
  dropped character by character, and a character at the back is dropped when it is
  white space and nothing is kept behind it.
\<close>

fun strip_front :: "string \<Rightarrow> string" where
  "strip_front [] = []"
| "strip_front (c # cs) = (if is_space c then strip_front cs else c # cs)"

fun strip_back :: "string \<Rightarrow> string" where
  "strip_back [] = []"
| "strip_back (c # cs) =
     (case strip_back cs of
        [] \<Rightarrow> (if is_space c then [] else [c])
      | d # ds \<Rightarrow> c # d # ds)"

definition spec_trimmed :: "string \<Rightarrow> string" where
  "spec_trimmed s = strip_back (strip_front s)"

text \<open>
  The sort key of \<^verbatim>\<open>steward\<close> in the specification: the owner's first and last
  name joined by a space and trimmed, the empty string without an owner profile.
\<close>

definition spec_steward_key :: "charter \<Rightarrow> string" where
  "spec_steward_key c =
     (case profiles c of
        None \<Rightarrow> []
      | Some p \<Rightarrow> spec_trimmed (first_name p @ '' '' @ last_name p))"

text \<open>
  The order of the result in the specification, as a relation between a charter and
  any charter behind it. Ascending by title or steward puts the smaller string
  first, descending the greater. For the date the directions are exchanged: the
  comparison is of \<open>b\<close> against \<open>a\<close> before the direction is applied, so an
  ascending request puts the later date first and a descending request the earlier.
\<close>

fun spec_in_order :: "(string \<Rightarrow> string \<Rightarrow> int) \<Rightarrow> sort_key \<Rightarrow> sort_direction \<Rightarrow> charter \<Rightarrow> charter \<Rightarrow> bool" where
  "spec_in_order lc Title Asc x y \<longleftrightarrow> lc (title x) (title y) \<le> 0"
| "spec_in_order lc Title Desc x y \<longleftrightarrow> 0 \<le> lc (title x) (title y)"
| "spec_in_order lc Steward Asc x y \<longleftrightarrow> lc (spec_steward_key x) (spec_steward_key y) \<le> 0"
| "spec_in_order lc Steward Desc x y \<longleftrightarrow> 0 \<le> lc (spec_steward_key x) (spec_steward_key y)"
| "spec_in_order lc Date Asc x y \<longleftrightarrow> created_at y \<le> created_at x"
| "spec_in_order lc Date Desc x y \<longleftrightarrow> created_at x \<le> created_at y"

subsection \<open>A comparator for the evaluated examples\<close>

text \<open>
  The examples below are evaluated with comparison by code units in the place of
  \<^verbatim>\<open>localeCompare\<close>; the theorems hold for every comparator, or every consistent one.
\<close>

fun ordinalCompare :: "string \<Rightarrow> string \<Rightarrow> int" where
  "ordinalCompare [] [] = 0"
| "ordinalCompare [] (y # ys) = - 1"
| "ordinalCompare (x # xs) [] = 1"
| "ordinalCompare (x # xs) (y # ys) =
     (if (of_char x :: nat) < of_char y then - 1
      else if (of_char y :: nat) < of_char x then 1
      else ordinalCompare xs ys)"

subsection \<open>Charters and configurations for the evaluated examples\<close>

definition jane :: profile where
  "jane = \<lparr>first_name = ''Jane'', last_name = ''Doe''\<rparr>"

definition sam :: stakeholder where
  "sam = \<lparr>email = ''sam@example.org'', department = ''engineering'',
          role = ''contributor'', s_profiles = None\<rparr>"

definition lee :: stakeholder where
  "lee = \<lparr>email = ''lee@example.org'', department = ''legal'', role = ''approver'',
          s_profiles = Some \<lparr>first_name = ''Lee'', last_name = ''Roy''\<rparr>\<rparr>"

definition alpha :: charter where
  "alpha = \<lparr>charter_id = ''c1'', title = ''Alpha'', description = None,
            created_at = 1000, profiles = Some jane, stakeholders = [sam]\<rparr>"

definition beta :: charter where
  "beta = \<lparr>charter_id = ''c2'', title = ''Beta'', description = Some ''Second charter'',
           created_at = 2000, profiles = None, stakeholders = [lee]\<rparr>"

text \<open>A third charter with the title, owner and date of \<open>alpha\<close>.\<close>

definition alpha_twin :: charter where
  "alpha_twin = \<lparr>charter_id = ''c3'', title = ''Alpha'', description = None,
                 created_at = 1000, profiles = Some jane, stakeholders = []\<rparr>"

text \<open>A charter of the legal department, later than \<open>beta\<close>.\<close>

definition gamma :: charter where
  "gamma = \<lparr>charter_id = ''c4'', title = ''Gamma'', description = None,
            created_at = 3000, profiles = None, stakeholders = [lee, sam]\<rparr>"

text \<open>A charter whose owner's names carry white space at the outer ends.\<close>

definition delta :: charter where
  "delta = \<lparr>charter_id = ''c5'', title = ''Delta'', description = None,
            created_at = 4000,
            profiles = Some \<lparr>first_name = '' Zed'', last_name = ''Poe  ''\<rparr>,
            stakeholders = []\<rparr>"

text \<open>The state of the page when it mounts (lines 23 to 26).\<close>

definition initial_config :: config where
  "initial_config = \<lparr>search = [], sortBy = Title, sortDirection = Asc, departmentFilter = []\<rparr>"

section \<open>Properties of the sort\<close>

lemma mset_insort_cmp: "mset (insort_cmp cmp x xs) = add_mset x (mset xs)"
  by (induction xs) auto

lemma mset_sort_cmp: "mset (sort_cmp cmp xs) = mset xs"
  by (induction xs) (auto simp: mset_insort_cmp)

lemma set_insort_cmp: "set (insort_cmp cmp x xs) = insert x (set xs)"
  by (induction xs) auto

lemma set_sort_cmp: "set (sort_cmp cmp xs) = set xs"
  by (induction xs) (auto simp: set_insort_cmp)

lemma consistent_total: "consistent_comparator cmp \<Longrightarrow> 0 < cmp a b \<Longrightarrow> cmp b a \<le> 0"
proof -
  assume c: "consistent_comparator cmp" and p: "0 < cmp a b"
  from c have "sgn (cmp a b) = - sgn (cmp b a)"
    unfolding consistent_comparator_def by blast
  with p show ?thesis by (simp add: sgn_if split: if_splits)
qed

lemma consistent_trans: "consistent_comparator cmp \<Longrightarrow> cmp a b \<le> 0 \<Longrightarrow> cmp b c \<le> 0 \<Longrightarrow> cmp a c \<le> 0"
  unfolding consistent_comparator_def by blast

lemma consistent_sym0: "consistent_comparator cmp \<Longrightarrow> cmp a b = 0 \<Longrightarrow> cmp b a = 0"
proof -
  assume c: "consistent_comparator cmp" and p: "cmp a b = 0"
  from c have "sgn (cmp a b) = - sgn (cmp b a)"
    unfolding consistent_comparator_def by blast
  with p show ?thesis by (simp add: sgn_if split: if_splits)
qed

lemma sorted_insort_cmp:
  assumes "consistent_comparator cmp" "sorted_wrt (\<lambda>a b. cmp a b \<le> 0) xs"
  shows "sorted_wrt (\<lambda>a b. cmp a b \<le> 0) (insort_cmp cmp x xs)"
  using assms(2)
proof (induction xs)
  case Nil
  then show ?case by simp
next
  case (Cons y ys)
  show ?case
  proof (cases "cmp x y \<le> 0")
    case True
    with Cons.prems assms(1) show ?thesis
      by (auto intro: consistent_trans)
  next
    case False
    then have "cmp y x \<le> 0" using consistent_total [OF assms(1)] by simp
    with False Cons show ?thesis
      by (auto simp: set_insort_cmp)
  qed
qed

lemma sorted_sort_cmp:
  "consistent_comparator cmp \<Longrightarrow> sorted_wrt (\<lambda>a b. cmp a b \<le> 0) (sort_cmp cmp xs)"
  by (induction xs) (auto intro: sorted_insort_cmp)

lemma stable_insort_cmp:
  assumes "consistent_comparator cmp"
  shows "filter (\<lambda>b. cmp a b = 0) (insort_cmp cmp x xs) =
         (if cmp a x = 0 then x # filter (\<lambda>b. cmp a b = 0) xs else filter (\<lambda>b. cmp a b = 0) xs)"
proof (induction xs)
  case Nil
  then show ?case by simp
next
  case (Cons y ys)
  have "\<not> (cmp a x = 0 \<and> cmp a y = 0 \<and> 0 < cmp x y)"
  proof
    assume h: "cmp a x = 0 \<and> cmp a y = 0 \<and> 0 < cmp x y"
    then have "cmp x a \<le> 0" using consistent_sym0 [OF assms, of a x] by simp
    moreover have "cmp a y \<le> 0" using h by simp
    ultimately have "cmp x y \<le> 0" using consistent_trans [OF assms] by blast
    with h show False by simp
  qed
  with Cons show ?case by auto
qed

lemma stable_sort_cmp:
  "consistent_comparator cmp \<Longrightarrow>
   filter (\<lambda>b. cmp a b = 0) (sort_cmp cmp xs) = filter (\<lambda>b. cmp a b = 0) xs"
  by (induction xs) (simp_all add: stable_insort_cmp)

lemma consistent_refl: "consistent_comparator cmp \<Longrightarrow> cmp a a = 0"
proof -
  assume "consistent_comparator cmp"
  then have "sgn (cmp a a) = - sgn (cmp a a)"
    unfolding consistent_comparator_def by blast
  then show ?thesis by (simp add: sgn_if split: if_splits)
qed

lemma consistent_antisym:
  "consistent_comparator cmp \<Longrightarrow> cmp a b \<le> 0 \<Longrightarrow> cmp b a \<le> 0 \<Longrightarrow> cmp a b = 0"
proof -
  assume "consistent_comparator cmp" and l: "cmp a b \<le> 0" "cmp b a \<le> 0"
  then have "sgn (cmp a b) = - sgn (cmp b a)"
    unfolding consistent_comparator_def by blast
  with l show ?thesis by (simp add: sgn_if split: if_splits)
qed

text \<open>
  A list ordered by a consistent comparator is determined by its classes of equal
  elements, each in its order: two stable sorts of one list agree, whatever the
  order of their comparator calls.
\<close>

lemma sorted_stable_unique:
  assumes c: "consistent_comparator cmp"
  shows "sorted_wrt (\<lambda>a b. cmp a b \<le> 0) ys \<Longrightarrow> sorted_wrt (\<lambda>a b. cmp a b \<le> 0) zs \<Longrightarrow>
         (\<And>a. filter (\<lambda>b. cmp a b = 0) ys = filter (\<lambda>b. cmp a b = 0) zs) \<Longrightarrow> ys = zs"
proof (induction ys arbitrary: zs)
  case Nil
  show ?case
  proof (cases zs)
    case Nil
    then show ?thesis by simp
  next
    case (Cons z zs')
    from Nil.prems(3) [of z] have "filter (\<lambda>b. cmp z b = 0) zs = []" by simp
    with Cons consistent_refl [OF c, of z] show ?thesis by simp
  qed
next
  case (Cons y ys')
  from Cons.prems(3) [of y] consistent_refl [OF c, of y]
  have fy: "filter (\<lambda>b. cmp y b = 0) zs = y # filter (\<lambda>b. cmp y b = 0) ys'" by simp
  then have "zs \<noteq> []" by auto
  then obtain z zs' where zs: "zs = z # zs'" by (cases zs) auto
  from fy have "y \<in> set (filter (\<lambda>b. cmp y b = 0) zs)" by simp
  then have yin: "y \<in> set zs" by (simp only: set_filter) blast
  from Cons.prems(3) [of z] zs consistent_refl [OF c, of z]
  have "z \<in> set (filter (\<lambda>b. cmp z b = 0) (y # ys'))" by simp
  then have zin: "z \<in> set (y # ys')" by (simp only: set_filter) blast
  have "cmp y z \<le> 0"
    using zin Cons.prems(1) consistent_refl [OF c, of y] by auto
  moreover have "cmp z y \<le> 0"
    using yin Cons.prems(2) consistent_refl [OF c, of z] unfolding zs by auto
  ultimately have "cmp y z = 0" by (rule consistent_antisym [OF c])
  with fy zs have zy: "z = y" by simp
  have "filter (\<lambda>b. cmp a b = 0) ys' = filter (\<lambda>b. cmp a b = 0) zs'" for a
    using Cons.prems(3) [of a] unfolding zs zy by (simp split: if_splits)
  moreover from Cons.prems(1) have "sorted_wrt (\<lambda>a b. cmp a b \<le> 0) ys'" by simp
  moreover from Cons.prems(2) have "sorted_wrt (\<lambda>a b. cmp a b \<le> 0) zs'" unfolding zs by simp
  ultimately have "ys' = zs'" by (rule Cons.IH [rotated 2])
  with zs zy show ?case by simp
qed

lemma sort_cmp_unique:
  assumes "consistent_comparator cmp"
    and "sorted_wrt (\<lambda>a b. cmp a b \<le> 0) ys"
    and "\<And>a. filter (\<lambda>b. cmp a b = 0) ys = filter (\<lambda>b. cmp a b = 0) xs"
  shows "ys = sort_cmp cmp xs"
proof (rule sorted_stable_unique [OF assms(1) assms(2)])
  show "sorted_wrt (\<lambda>a b. cmp a b \<le> 0) (sort_cmp cmp xs)"
    by (rule sorted_sort_cmp [OF assms(1)])
  show "filter (\<lambda>b. cmp a b = 0) ys = filter (\<lambda>b. cmp a b = 0) (sort_cmp cmp xs)" for a
    by (simp add: assms(3) stable_sort_cmp [OF assms(1)])
qed

lemma ordinalCompare_swap: "sgn (ordinalCompare a b) = - sgn (ordinalCompare b a)"
  by (induction a b rule: ordinalCompare.induct) auto

lemma ordinalCompare_trans:
  "ordinalCompare a b \<le> 0 \<Longrightarrow> ordinalCompare b c \<le> 0 \<Longrightarrow> ordinalCompare a c \<le> 0"
proof (induction a arbitrary: b c)
  case Nil
  then show ?case by (cases c) auto
next
  case (Cons x xs)
  then obtain y ys where b: "b = y # ys" by (cases b) auto
  with Cons.prems obtain z zs where c: "c = z # zs" by (cases c) auto
  from Cons.prems Cons.IH [of ys zs] show ?case
    unfolding b c by (auto split: if_splits)
qed

lemma consistent_ordinalCompare: "consistent_comparator ordinalCompare"
  unfolding consistent_comparator_def
  using ordinalCompare_swap ordinalCompare_trans by blast

lemma consistent_negate:
  "consistent_comparator cmp \<Longrightarrow> consistent_comparator (\<lambda>a b. - cmp a b)"
proof -
  assume c: "consistent_comparator cmp"
  have s: "\<And>a b. sgn (cmp a b) = - sgn (cmp b a)"
    using c unfolding consistent_comparator_def by blast
  have t: "\<And>a b d. 0 \<le> cmp a b \<Longrightarrow> 0 \<le> cmp b d \<Longrightarrow> 0 \<le> cmp a d"
  proof -
    fix a b d assume "0 \<le> cmp a b" "0 \<le> cmp b d"
    then have "cmp b a \<le> 0" "cmp d b \<le> 0"
      using s [of a b] s [of b d] by (auto simp: sgn_if split: if_splits)
    then have "cmp d a \<le> 0" using consistent_trans [OF c] by blast
    then show "0 \<le> cmp a d" using s [of a d] by (auto simp: sgn_if split: if_splits)
  qed
  show ?thesis
    unfolding consistent_comparator_def
  proof (intro conjI allI impI)
    fix a b show "sgn (- cmp a b) = - sgn (- cmp b a)"
      using s [of a b] by (simp add: sgn_minus)
  next
    fix a b d assume "- cmp a b \<le> 0 \<and> - cmp b d \<le> 0"
    then show "- cmp a d \<le> 0" using t [of a b d] by simp
  qed
qed

lemma consistent_on_key:
  "consistent_comparator lc \<Longrightarrow> consistent_comparator (\<lambda>a b. lc (f a) (f b))"
  unfolding consistent_comparator_def by blast

lemma consistent_date:
  "consistent_comparator (\<lambda>a b. created_at b - created_at a)"
  unfolding consistent_comparator_def by (auto simp: sgn_if)

lemma consistent_comparison:
  "sortBy cfg = Date \<or> consistent_comparator lc \<Longrightarrow>
   consistent_comparator (comparison lc (sortBy cfg))"
proof (cases "sortBy cfg")
  case Title
  assume "sortBy cfg = Date \<or> consistent_comparator lc"
  with Title have "consistent_comparator (\<lambda>a b. lc (title a) (title b))"
    using consistent_on_key by auto
  moreover have "comparison lc Title = (\<lambda>a b. lc (title a) (title b))"
    by (intro ext) simp
  ultimately show ?thesis using Title by simp
next
  case Steward
  assume "sortBy cfg = Date \<or> consistent_comparator lc"
  with Steward have "consistent_comparator (\<lambda>a b. lc (stewardName a) (stewardName b))"
    using consistent_on_key by auto
  moreover have "comparison lc Steward = (\<lambda>a b. lc (stewardName a) (stewardName b))"
    by (intro ext) simp
  ultimately show ?thesis using Steward by simp
next
  case Date
  have "comparison lc Date = (\<lambda>a b. created_at b - created_at a)"
    by (intro ext) simp
  then show ?thesis using Date consistent_date by simp
qed

lemma consistent_compareCharters:
  assumes "sortBy cfg = Date \<or> consistent_comparator lc"
  shows "consistent_comparator (compareCharters lc cfg)"
proof (cases "sortDirection cfg = Asc")
  case True
  then have "compareCharters lc cfg = comparison lc (sortBy cfg)"
    by (intro ext) (simp add: compareCharters_def)
  then show ?thesis using consistent_comparison [OF assms] by simp
next
  case False
  then have "compareCharters lc cfg = (\<lambda>a b. - comparison lc (sortBy cfg) a b)"
    by (intro ext) (simp add: compareCharters_def)
  then show ?thesis using consistent_negate [OF consistent_comparison [OF assms]] by simp
qed

section \<open>Properties of the string operations\<close>

lemma str_includes_iff: "str_includes s t \<longleftrightarrow> (\<exists>pre post. s = pre @ t @ post)"
proof (induction s)
  case Nil
  then show ?case by auto
next
  case (Cons x xs)
  show ?case
  proof
    assume "str_includes (x # xs) t"
    then consider "prefix t (x # xs)" | "str_includes xs t" by auto
    then show "\<exists>pre post. x # xs = pre @ t @ post"
    proof cases
      case 1
      then obtain post where "x # xs = t @ post" by (auto simp: prefix_def)
      then have "x # xs = [] @ t @ post" by simp
      then show ?thesis by blast
    next
      case 2
      with Cons obtain pre post where "xs = pre @ t @ post" by blast
      then have "x # xs = (x # pre) @ t @ post" by simp
      then show ?thesis by blast
    qed
  next
    assume "\<exists>pre post. x # xs = pre @ t @ post"
    then obtain pre post where e: "x # xs = pre @ t @ post" by blast
    show "str_includes (x # xs) t"
    proof (cases pre)
      case Nil
      with e have "prefix t (x # xs)" by (simp add: prefix_def)
      then show ?thesis by simp
    next
      case (Cons p ps)
      with e have "xs = ps @ t @ post" by simp
      with Cons.IH have "str_includes xs t" by blast
      then show ?thesis by simp
    qed
  qed
qed

lemma trim_embedded: "\<exists>pre post. s = pre @ trim s @ post"
proof -
  let ?a = "takeWhile is_space s" and ?m = "dropWhile is_space s"
  let ?b = "takeWhile is_space (rev ?m)"
  have "rev ?m = ?b @ dropWhile is_space (rev ?m)" by simp
  then have "?m = rev (dropWhile is_space (rev ?m)) @ rev ?b"
    by (metis rev_append rev_rev_ident)
  then have "?m = trim s @ rev ?b" by (simp add: trim_def)
  moreover have "s = ?a @ ?m" by simp
  ultimately have "s = ?a @ trim s @ rev ?b" by metis
  then show ?thesis by blast
qed

lemma str_includes_trans:
  "str_includes s t \<Longrightarrow> str_includes t u \<Longrightarrow> str_includes s u"
proof -
  assume "str_includes s t" "str_includes t u"
  then obtain p1 q1 p2 q2 where "s = p1 @ t @ q1" "t = p2 @ u @ q2"
    unfolding str_includes_iff by blast
  then have "s = (p1 @ p2) @ u @ (q2 @ q1)" by simp
  then show ?thesis unfolding str_includes_iff by blast
qed

lemma str_includes_lower_trim:
  "str_includes (toLowerCase s) (toLowerCase (trim s))"
proof -
  obtain pre post where "s = pre @ trim s @ post" using trim_embedded by blast
  then have "toLowerCase s = toLowerCase pre @ toLowerCase (trim s) @ toLowerCase post"
    unfolding toLowerCase_def by (metis map_append)
  then show ?thesis unfolding str_includes_iff by blast
qed



lemma list_ex_upt_Suc: "list_ex P [0..<Suc n] \<longleftrightarrow> (\<exists>i\<le>n. P i)"
proof -
  have "list_ex P [0..<Suc n] \<longleftrightarrow> (\<exists>i\<in>{0..<Suc n}. P i)"
    by (simp only: list_ex_iff set_upt)
  also have "\<dots> \<longleftrightarrow> (\<exists>i\<le>n. P i)"
    by (auto simp only: atLeastLessThan_iff less_Suc_eq_le Bex_def)
  finally show ?thesis .
qed





section \<open>The store after a run\<close>

lemma filteredCharters_Some:
  assumes "a < length h"
  shows "\<exists>h' r. filteredCharters lc h (Some a) cfg = (h', r) \<and> length h \<le> r \<and> r < length h' \<and>
           take (length h) h' = h \<and> h' ! r = filterAndSort lc (Some (h ! a)) cfg"
  using assms
  unfolding filteredCharters_def filterAndSort_def applySearch_def applyDepartment_def alloc_def
  by (simp add: nth_append)

lemma filteredCharters_None:
  "filteredCharters lc h None cfg = (h @ [[]], length h)"
  by (simp add: filteredCharters_def alloc_def)

lemma filteredCharters_run:
  assumes "live h charters"
  shows "\<exists>h' r. filteredCharters lc h charters cfg = (h', r) \<and> length h \<le> r \<and> r < length h' \<and>
           take (length h) h' = h \<and> h' ! r = filterAndSort lc (deref h charters) cfg"
proof (cases charters)
  case None
  then show ?thesis
    by (simp add: filteredCharters_None deref_def filterAndSort_def)
next
  case (Some a)
  with assms have "a < length h" by (simp add: live_def)
  from filteredCharters_Some [OF this, of lc cfg] Some show ?thesis
    by (simp add: deref_def)
qed

lemma store_prefix_nth: "take (length h) h' = h \<Longrightarrow> i < length h \<Longrightarrow> h' ! i = h ! i"
  by (metis nth_take)

lemma store_prefix_length: "take (length h) h' = h \<Longrightarrow> length h \<le> length h'"
  by (metis length_take min.cobounded1 min.commute)

lemma store_prefix_live:
  "take (length h) h' = h \<Longrightarrow> live h charters \<Longrightarrow>
   live h' charters \<and> deref h' charters = deref h charters"
proof (cases charters)
  case None
  then show ?thesis by (simp add: live_def deref_def)
next
  case (Some a)
  assume p: "take (length h) h' = h" and "live h charters"
  with Some have a: "a < length h" by (simp add: live_def)
  with store_prefix_length [OF p] have "a < length h'" by simp
  moreover from store_prefix_nth [OF p a] have "h' ! a = h ! a" .
  ultimately show ?thesis using Some by (simp add: live_def deref_def)
qed

section \<open>Properties of the result\<close>

lemma set_filterAndSort:
  "set (filterAndSort lc (Some cs) cfg) = set (applyDepartment cfg (applySearch cfg cs))"
  by (simp add: filterAndSort_def set_sort_cmp)

lemma sorted_filterAndSort:
  "sortBy cfg = Date \<or> consistent_comparator lc \<Longrightarrow>
   sorted_wrt (\<lambda>a b. compareCharters lc cfg a b \<le> 0) (filterAndSort lc charters cfg)"
  by (cases charters) (simp_all add: filterAndSort_def sorted_sort_cmp consistent_compareCharters)

lemma ci_contains_iff:
  "ci_contains field s \<longleftrightarrow> (\<exists>pre mid post. field = pre @ mid @ post \<and> ci_equal mid s)"
proof
  assume "ci_contains field s"
  then obtain i where i: "ci_equal (take (length s) (drop i field)) s"
    unfolding ci_contains_def list_ex_upt_Suc by blast
  have "drop i field = take (length s) (drop i field) @ drop (length s) (drop i field)"
    by (simp only: append_take_drop_id)
  moreover have "field = take i field @ drop i field" by simp
  ultimately have "field = take i field @ take (length s) (drop i field) @ drop (length s) (drop i field)"
    by metis
  with i show "\<exists>pre mid post. field = pre @ mid @ post \<and> ci_equal mid s" by blast
next
  assume "\<exists>pre mid post. field = pre @ mid @ post \<and> ci_equal mid s"
  then obtain pre mid post where f: "field = pre @ mid @ post" and e: "ci_equal mid s" by blast
  from e have "length mid = length s" unfolding ci_equal_def by (rule list_all2_lengthD)
  with f have "take (length s) (drop (length pre) field) = mid" by simp
  moreover from f have "length pre \<le> length field" by simp
  ultimately show "ci_contains field s"
    unfolding ci_contains_def list_ex_upt_Suc using e by blast
qed


lemma applyDepartment_spec:
  "applyDepartment cfg xs = filter (spec_department_retains (departmentFilter cfg)) xs"
proof (cases "departmentFilter cfg = []")
  case True
  then show ?thesis by (simp add: applyDepartment_def spec_department_retains_def)
next
  case False
  then have "departmentMatches (departmentFilter cfg) = spec_department_retains (departmentFilter cfg)"
    by (intro ext) (simp add: departmentMatches_def spec_department_retains_def)
  with False show ?thesis by (simp add: applyDepartment_def)
qed

lemma strip_front_dropWhile: "strip_front s = dropWhile is_space s"
  by (induction s) auto

lemma strip_back_rev: "strip_back s = rev (dropWhile is_space (rev s))"
proof (induction s)
  case Nil
  then show ?case by simp
next
  case (Cons c cs)
  show ?case
  proof (cases "\<forall>x \<in> set (rev cs). is_space x")
    case True
    then have "dropWhile is_space (rev cs) = []" by (simp only: dropWhile_eq_Nil_conv)
    with Cons.IH have b: "strip_back cs = []" by simp
    from True have "\<And>x. x \<in> set (rev cs) \<Longrightarrow> is_space x" by blast
    then have "dropWhile is_space (rev cs @ [c]) = dropWhile is_space [c]"
      by (rule dropWhile_append2)
    then have "rev (dropWhile is_space (rev (c # cs))) = (if is_space c then [] else [c])"
      by simp
    moreover from b have "strip_back (c # cs) = (if is_space c then [] else [c])" by simp
    ultimately show ?thesis by simp
  next
    case False
    then obtain x where x: "x \<in> set (rev cs)" "\<not> is_space x" by blast
    then have d: "dropWhile is_space (rev cs @ [c]) = dropWhile is_space (rev cs) @ [c]"
      by (rule dropWhile_append1)
    from False have "dropWhile is_space (rev cs) \<noteq> []" by (simp only: dropWhile_eq_Nil_conv) simp
    then have "strip_back cs \<noteq> []" using Cons.IH by simp
    then obtain e es where "strip_back cs = e # es" by (cases "strip_back cs") auto
    then show ?thesis using Cons.IH d by simp
  qed
qed

lemma trim_spec_trimmed: "trim s = spec_trimmed s"
  by (simp add: trim_def spec_trimmed_def strip_front_dropWhile strip_back_rev)

text \<open>A trimmed string has no white space at either end.\<close>

lemma strip_back_last: "strip_back s \<noteq> [] \<Longrightarrow> \<not> is_space (last (strip_back s))"
  by (induction s) (auto split: list.splits if_splits)

lemma strip_back_hd: "strip_back s \<noteq> [] \<Longrightarrow> hd (strip_back s) = hd s"
  by (cases s) (auto split: list.splits if_splits)

lemma strip_front_hd: "strip_front s \<noteq> [] \<Longrightarrow> \<not> is_space (hd (strip_front s))"
  by (induction s) auto

lemma spec_trimmed_ends:
  "spec_trimmed s \<noteq> [] \<Longrightarrow>
   \<not> is_space (hd (spec_trimmed s)) \<and> \<not> is_space (last (spec_trimmed s))"
proof -
  assume n: "spec_trimmed s \<noteq> []"
  then have "strip_front s \<noteq> []" by (auto simp: spec_trimmed_def)
  then have "\<not> is_space (hd (strip_front s))" by (rule strip_front_hd)
  moreover from n have "hd (spec_trimmed s) = hd (strip_front s)"
    unfolding spec_trimmed_def by (rule strip_back_hd)
  moreover from n have "\<not> is_space (last (spec_trimmed s))"
    unfolding spec_trimmed_def by (rule strip_back_last)
  ultimately show ?thesis by simp
qed

lemma spec_steward_key_eq: "spec_steward_key = stewardName"
  by (intro ext)
    (simp add: spec_steward_key_def stewardName_def full_name_def trim_spec_trimmed
      split: option.split)

lemma compare_in_order:
  "compareCharters lc cfg x y \<le> 0 \<longleftrightarrow> spec_in_order lc (sortBy cfg) (sortDirection cfg) x y"
  by (cases "sortBy cfg"; cases "sortDirection cfg")
    (simp_all add: compareCharters_def spec_steward_key_eq)

lemma in_order_filterAndSort:
  assumes "sortBy cfg = Date \<or> consistent_comparator lc"
  shows "sorted_wrt (spec_in_order lc (sortBy cfg) (sortDirection cfg)) (filterAndSort lc charters cfg)"
proof -
  have "(\<lambda>x y. compareCharters lc cfg x y \<le> 0) = spec_in_order lc (sortBy cfg) (sortDirection cfg)"
    by (intro ext) (rule compare_in_order)
  with sorted_filterAndSort [OF assms, of charters] show ?thesis by simp
qed

lemma searchMatches_trim:
  "searchMatches (toLowerCase s) c \<Longrightarrow> searchMatches (toLowerCase (trim s)) c"
proof -
  have w: "\<And>f. str_includes f (toLowerCase s) \<Longrightarrow> str_includes f (toLowerCase (trim s))"
    using str_includes_trans str_includes_lower_trim by blast
  then have st: "\<And>x. stakeholderMatches (toLowerCase s) x \<Longrightarrow>
      stakeholderMatches (toLowerCase (trim s)) x"
    unfolding stakeholderMatches_def Let_def by (auto split: option.splits)
  assume "searchMatches (toLowerCase s) c"
  then show ?thesis
    unfolding searchMatches_def Let_def list_ex_iff
    using w st by (auto split: option.splits)
qed

lemma mset_filter_mono:
  "(\<And>x. x \<in> set xs \<Longrightarrow> P x \<Longrightarrow> Q x) \<Longrightarrow> mset (filter P xs) \<subseteq># mset (filter Q xs)"
proof (induction xs)
  case Nil
  then show ?case by simp
next
  case (Cons x xs)
  then have "mset (filter P xs) \<subseteq># mset (filter Q xs)" by simp
  moreover have "P x \<Longrightarrow> Q x" using Cons.prems by simp
  ultimately show ?case by (auto intro: subset_mset.order_trans)
qed

lemma applySearch_trim_mono:
  "mset (applySearch cfg cs) \<subseteq># mset (applySearch (cfg\<lparr>search := trim (search cfg)\<rparr>) cs)"
proof (cases "search cfg = []")
  case True
  then show ?thesis by (simp add: applySearch_def trim_def)
next
  case False
  show ?thesis
  proof (cases "trim (search cfg) = []")
    case True
    with False show ?thesis by (simp add: applySearch_def)
  next
    case t: False
    from False have a: "applySearch cfg cs = filter (searchMatches (toLowerCase (search cfg))) cs"
      by (simp add: applySearch_def)
    from t have b: "applySearch (cfg\<lparr>search := trim (search cfg)\<rparr>) cs =
        filter (searchMatches (toLowerCase (trim (search cfg)))) cs"
      by (simp add: applySearch_def)
    show ?thesis unfolding a b by (rule mset_filter_mono) (rule searchMatches_trim)
  qed
qed

section \<open>The claims\<close>

text \<open>
  C1. With \<^verbatim>\<open>sortBy = 'date'\<close> the base comparison of two charters \<open>a\<close> and \<open>b\<close> is
  \<open>created_at b - created_at a\<close> whatever the direction, and the direction then
  negates it (for \<^verbatim>\<open>'desc'\<close>) or keeps it (for \<^verbatim>\<open>'asc'\<close>). So an ascending request
  lists the charters newest first, and a descending request oldest first.
\<close>

theorem date_comparison_inverted:
  assumes "sortBy cfg = Date"
  shows "comparison lc (sortBy cfg) a b = created_at b - created_at a \<and>
         compareCharters lc cfg a b =
           (if sortDirection cfg = Asc then created_at b - created_at a
            else - (created_at b - created_at a)) \<and>
         (sortDirection cfg = Asc \<longrightarrow>
            sorted_wrt (\<lambda>x y. created_at y \<le> created_at x) (filterAndSort lc (Some cs) cfg)) \<and>
         (sortDirection cfg = Desc \<longrightarrow>
            sorted_wrt (\<lambda>x y. created_at x \<le> created_at y) (filterAndSort lc (Some cs) cfg))"
proof -
  have cmp: "compareCharters lc cfg =
      (\<lambda>x y. if sortDirection cfg = Asc then created_at y - created_at x
             else - (created_at y - created_at x))"
    using assms by (intro ext) (simp add: compareCharters_def)
  have srt: "sorted_wrt (\<lambda>x y. compareCharters lc cfg x y \<le> 0) (filterAndSort lc (Some cs) cfg)"
    using assms by (simp add: sorted_filterAndSort)
  have asc: "sorted_wrt (\<lambda>x y. created_at y \<le> created_at x) (filterAndSort lc (Some cs) cfg)"
    if "sortDirection cfg = Asc"
    using srt that unfolding cmp by simp
  have desc: "sorted_wrt (\<lambda>x y. created_at x \<le> created_at y) (filterAndSort lc (Some cs) cfg)"
    if "sortDirection cfg = Desc"
    using srt that unfolding cmp by simp
  show ?thesis using assms asc desc by (simp add: cmp)
qed

theorem date_comparison_inverted_witness:
  "sortBy (initial_config\<lparr>sortBy := Date\<rparr>) = Date \<and>
   sortDirection (initial_config\<lparr>sortBy := Date\<rparr>) = Asc \<and>
   compareCharters ordinalCompare (initial_config\<lparr>sortBy := Date\<rparr>) alpha beta = 1000 \<and>
   filterAndSort ordinalCompare (Some [alpha, beta]) (initial_config\<lparr>sortBy := Date\<rparr>) = [beta, alpha] \<and>
   sorted_wrt (\<lambda>x y. created_at y \<le> created_at x)
     (filterAndSort ordinalCompare (Some [alpha, beta]) (initial_config\<lparr>sortBy := Date\<rparr>))"
proof -
  let ?cfg = "initial_config\<lparr>sortBy := Date\<rparr>"
  have k: "sortBy ?cfg = Date" by simp
  have d: "sortDirection ?cfg = Asc" by (simp add: initial_config_def)
  have v: "created_at beta - created_at alpha = 1000" by (simp add: alpha_def beta_def)
  have e: "filterAndSort ordinalCompare (Some [alpha, beta]) ?cfg = [beta, alpha]"
    by code_simp
  note t = date_comparison_inverted [OF k, of ordinalCompare alpha beta "[alpha, beta]"]
  from t d v have "compareCharters ordinalCompare ?cfg alpha beta = 1000" by simp
  moreover from t d have "sorted_wrt (\<lambda>x y. created_at y \<le> created_at x)
     (filterAndSort ordinalCompare (Some [alpha, beta]) ?cfg)" by blast
  ultimately show ?thesis using k d e by blast
qed



text \<open>
  C3. With a non-empty \<^verbatim>\<open>departmentFilter\<close>, every charter of the result has a
  stakeholder whose department is equal to the filter, and no charter of the input
  without such a stakeholder is in the result.
\<close>

theorem department_filter_exclusive:
  assumes "departmentFilter cfg \<noteq> []"
  shows "(\<forall>c \<in> set (filterAndSort lc (Some cs) cfg).
            \<exists>st \<in> set (stakeholders c). department st = departmentFilter cfg) \<and>
         (\<forall>c \<in> set cs. (\<forall>st \<in> set (stakeholders c). department st \<noteq> departmentFilter cfg) \<longrightarrow>
            c \<notin> set (filterAndSort lc (Some cs) cfg))"
  using assms
  unfolding set_filterAndSort applyDepartment_def departmentMatches_def list_ex_iff
  by auto

theorem department_filter_exclusive_witness:
  "departmentFilter (initial_config\<lparr>departmentFilter := ''legal''\<rparr>) \<noteq> [] \<and>
   filterAndSort ordinalCompare (Some [alpha, beta]) (initial_config\<lparr>departmentFilter := ''legal''\<rparr>) = [beta] \<and>
   (\<exists>st \<in> set (stakeholders beta). department st = ''legal'') \<and>
   alpha \<notin> set (filterAndSort ordinalCompare (Some [alpha, beta]) (initial_config\<lparr>departmentFilter := ''legal''\<rparr>))"
proof -
  let ?cfg = "initial_config\<lparr>departmentFilter := ''legal''\<rparr>"
  have f: "departmentFilter ?cfg = ''legal''" by simp
  then have n: "departmentFilter ?cfg \<noteq> []" by simp
  have e: "filterAndSort ordinalCompare (Some [alpha, beta]) ?cfg = [beta]" by code_simp
  have na: "\<forall>st \<in> set (stakeholders alpha). department st \<noteq> departmentFilter ?cfg"
    by (simp add: alpha_def sam_def)
  note t = department_filter_exclusive [OF n, of ordinalCompare "[alpha, beta]"]
  from t e f have "\<exists>st \<in> set (stakeholders beta). department st = ''legal''" by simp
  moreover from t na have "alpha \<notin> set (filterAndSort ordinalCompare (Some [alpha, beta]) ?cfg)"
    by simp
  ultimately show ?thesis using n e by blast
qed

text \<open>
  C4. With the empty \<^verbatim>\<open>search\<close> the result is the sorted list of the charters that
  pass the department filter: the same charters with the same multiplicities, in the
  order of the selected key and direction (for a consistent \<^verbatim>\<open>localeCompare\<close>, or
  the date key).
\<close>

theorem empty_search_excludes_nothing:
  assumes "search cfg = []"
  shows "filterAndSort lc (Some cs) cfg =
           sort_cmp (compareCharters lc cfg)
             (filter (spec_department_retains (departmentFilter cfg)) cs) \<and>
         mset (filterAndSort lc (Some cs) cfg) =
           mset (filter (spec_department_retains (departmentFilter cfg)) cs) \<and>
         (sortBy cfg = Date \<or> consistent_comparator lc \<longrightarrow>
            sorted_wrt (spec_in_order lc (sortBy cfg) (sortDirection cfg))
              (filterAndSort lc (Some cs) cfg))"
proof -
  from assms have "applySearch cfg cs = cs" by (simp add: applySearch_def)
  then have e: "filterAndSort lc (Some cs) cfg =
      sort_cmp (compareCharters lc cfg) (filter (spec_department_retains (departmentFilter cfg)) cs)"
    by (simp add: filterAndSort_def applyDepartment_spec)
  then have "mset (filterAndSort lc (Some cs) cfg) =
      mset (filter (spec_department_retains (departmentFilter cfg)) cs)"
    by (simp only: mset_sort_cmp)
  with e show ?thesis using in_order_filterAndSort [of cfg lc "Some cs"] by blast
qed

theorem empty_search_excludes_nothing_witness:
  "search (initial_config\<lparr>sortDirection := Desc, departmentFilter := ''legal''\<rparr>) = [] \<and>
   filter (spec_department_retains ''legal'') [beta, alpha, gamma] = [beta, gamma] \<and>
   filterAndSort ordinalCompare (Some [beta, alpha, gamma])
     (initial_config\<lparr>sortDirection := Desc, departmentFilter := ''legal''\<rparr>) = [gamma, beta] \<and>
   mset (filterAndSort ordinalCompare (Some [beta, alpha, gamma])
     (initial_config\<lparr>sortDirection := Desc, departmentFilter := ''legal''\<rparr>)) = mset [beta, gamma] \<and>
   sorted_wrt (spec_in_order ordinalCompare Title Desc)
     (filterAndSort ordinalCompare (Some [beta, alpha, gamma])
        (initial_config\<lparr>sortDirection := Desc, departmentFilter := ''legal''\<rparr>)) \<and>
   spec_in_order ordinalCompare Title Desc gamma beta \<and>
   \<not> spec_in_order ordinalCompare Title Desc beta gamma"
proof -
  let ?cfg = "initial_config\<lparr>sortDirection := Desc, departmentFilter := ''legal''\<rparr>"
  have s: "search ?cfg = []" by (simp add: initial_config_def)
  have f: "departmentFilter ?cfg = ''legal''" by simp
  have k: "sortBy ?cfg = Title" by (simp add: initial_config_def)
  have d: "sortDirection ?cfg = Desc" by simp
  have r: "filter (spec_department_retains ''legal'') [beta, alpha, gamma] = [beta, gamma]"
    by code_simp
  have e: "filterAndSort ordinalCompare (Some [beta, alpha, gamma]) ?cfg = [gamma, beta]"
    by code_simp
  have o1: "spec_in_order ordinalCompare Title Desc gamma beta" by code_simp
  have o2: "\<not> spec_in_order ordinalCompare Title Desc beta gamma" by code_simp
  note t = empty_search_excludes_nothing [OF s, of ordinalCompare "[beta, alpha, gamma]"]
  from t have "mset (filterAndSort ordinalCompare (Some [beta, alpha, gamma]) ?cfg) =
      mset (filter (spec_department_retains (departmentFilter ?cfg)) [beta, alpha, gamma])"
    by blast
  then have m: "mset (filterAndSort ordinalCompare (Some [beta, alpha, gamma]) ?cfg) =
      mset [beta, gamma]"
    by (simp only: f r)
  from t consistent_ordinalCompare
  have "sorted_wrt (spec_in_order ordinalCompare (sortBy ?cfg) (sortDirection ?cfg))
     (filterAndSort ordinalCompare (Some [beta, alpha, gamma]) ?cfg)" by blast
  then have o: "sorted_wrt (spec_in_order ordinalCompare Title Desc)
     (filterAndSort ordinalCompare (Some [beta, alpha, gamma]) ?cfg)"
    by (simp only: k d)
  show ?thesis using s r e m o o1 o2 by blast
qed

text \<open>
  C5. The sort is stable: for every charter \<open>a\<close>, the charters that compare equal to
  \<open>a\<close> under the selected key and direction stand in the result in the order they
  had in the filtered list. \<^verbatim>\<open>localeCompare\<close> is taken to be a consistent comparator;
  the date key needs no such assumption.
\<close>

theorem sort_is_stable:
  assumes "sortBy cfg = Date \<or> consistent_comparator lc"
  shows "filter (\<lambda>b. compareCharters lc cfg a b = 0) (filterAndSort lc (Some cs) cfg) =
         filter (\<lambda>b. compareCharters lc cfg a b = 0) (applyDepartment cfg (applySearch cfg cs))"
  using stable_sort_cmp [OF consistent_compareCharters [OF assms]]
  by (simp add: filterAndSort_def)

theorem sort_is_stable_witness:
  "consistent_comparator ordinalCompare \<and>
   compareCharters ordinalCompare initial_config alpha alpha_twin = 0 \<and>
   applyDepartment initial_config (applySearch initial_config [beta, alpha_twin, alpha]) =
     [beta, alpha_twin, alpha] \<and>
   filterAndSort ordinalCompare (Some [beta, alpha_twin, alpha]) initial_config =
     [alpha_twin, alpha, beta] \<and>
   filter (\<lambda>b. compareCharters ordinalCompare initial_config alpha b = 0)
     (filterAndSort ordinalCompare (Some [beta, alpha_twin, alpha]) initial_config) =
     [alpha_twin, alpha]"
proof -
  have c: "sortBy initial_config = Date \<or> consistent_comparator ordinalCompare"
    using consistent_ordinalCompare by simp
  have z: "compareCharters ordinalCompare initial_config alpha alpha_twin = 0" by code_simp
  have i: "applyDepartment initial_config (applySearch initial_config [beta, alpha_twin, alpha]) =
     [beta, alpha_twin, alpha]" by code_simp
  have e: "filterAndSort ordinalCompare (Some [beta, alpha_twin, alpha]) initial_config =
     [alpha_twin, alpha, beta]" by code_simp
  have f: "filter (\<lambda>b. compareCharters ordinalCompare initial_config alpha b = 0)
     [beta, alpha_twin, alpha] = [alpha_twin, alpha]" by code_simp
  note t = sort_is_stable [OF c, of alpha "[beta, alpha_twin, alpha]"]
  from t i f have "filter (\<lambda>b. compareCharters ordinalCompare initial_config alpha b = 0)
     (filterAndSort ordinalCompare (Some [beta, alpha_twin, alpha]) initial_config) =
     [alpha_twin, alpha]" by simp
  then show ?thesis using consistent_ordinalCompare z i e by blast
qed

text \<open>
  C6. Two invocations on the same charters and the same configuration return the same
  sequence: run after a first invocation, on the store the first one left, the
  callback returns an array with the contents of the first result, which is the value
  \<open>filterAndSort\<close> of the input's contents; the first result is not disturbed.
\<close>

theorem rerun_same_output:
  assumes "live h charters"
  shows "(let (h1, r1) = filteredCharters lc h charters cfg;
              (h2, r2) = filteredCharters lc h1 charters cfg
          in h1 ! r1 = filterAndSort lc (deref h charters) cfg \<and>
             h2 ! r2 = h1 ! r1 \<and> h2 ! r1 = h1 ! r1)"
proof -
  from filteredCharters_run [OF assms, of lc cfg] obtain h1 r1 where
    1: "filteredCharters lc h charters cfg = (h1, r1)" and
    b1: "r1 < length h1" and p1: "take (length h) h1 = h" and
    v1: "h1 ! r1 = filterAndSort lc (deref h charters) cfg" by blast
  from store_prefix_live [OF p1 assms] have l1: "live h1 charters"
    and d1: "deref h1 charters = deref h charters" by simp_all
  from filteredCharters_run [OF l1, of lc cfg] obtain h2 r2 where
    2: "filteredCharters lc h1 charters cfg = (h2, r2)" and
    p2: "take (length h1) h2 = h1" and
    v2: "h2 ! r2 = filterAndSort lc (deref h1 charters) cfg" by blast
  from store_prefix_nth [OF p2 b1] have "h2 ! r1 = h1 ! r1" .
  with v1 v2 d1 show ?thesis by (simp add: 1 2)
qed

theorem rerun_same_output_witness:
  "live [[beta, alpha]] (Some 0) \<and>
   filteredCharters ordinalCompare [[beta, alpha]] (Some 0) initial_config =
     ([[beta, alpha], [alpha, beta]], 1) \<and>
   filteredCharters ordinalCompare [[beta, alpha], [alpha, beta]] (Some 0) initial_config =
     ([[beta, alpha], [alpha, beta], [alpha, beta]], 2) \<and>
   [[beta, alpha], [alpha, beta], [alpha, beta]] ! 2 = [[beta, alpha], [alpha, beta]] ! 1"
proof -
  have l: "live [[beta, alpha]] (Some 0)" by (simp add: live_def)
  have 1: "filteredCharters ordinalCompare [[beta, alpha]] (Some 0) initial_config =
     ([[beta, alpha], [alpha, beta]], 1)" by code_simp
  have 2: "filteredCharters ordinalCompare [[beta, alpha], [alpha, beta]] (Some 0) initial_config =
     ([[beta, alpha], [alpha, beta], [alpha, beta]], 2)" by code_simp
  note t = rerun_same_output [OF l, of ordinalCompare initial_config]
  from t have "[[beta, alpha], [alpha, beta], [alpha, beta]] ! 2 = [[beta, alpha], [alpha, beta]] ! 1"
    unfolding 1 2 Let_def prod.case by (elim conjE)
  then show ?thesis using l 1 2 by blast
qed

text \<open>
  C8. An invocation leaves every array that existed before it as it was, the input
  array with its charters and their stakeholder lists among them, and returns an
  array at an address that was not in use: a new sequence, distinct from the input.
\<close>

theorem inputs_not_mutated:
  assumes "live h charters"
  shows "(let (h', r) = filteredCharters lc h charters cfg
          in take (length h) h' = h \<and> length h \<le> r \<and> r < length h' \<and>
             (\<forall>a. charters = Some a \<longrightarrow> h' ! a = h ! a \<and> r \<noteq> a))"
proof -
  from filteredCharters_run [OF assms, of lc cfg] obtain h' r where
    1: "filteredCharters lc h charters cfg = (h', r)" and
    f: "length h \<le> r" and b: "r < length h'" and p: "take (length h) h' = h" by blast
  have "h' ! a = h ! a \<and> r \<noteq> a" if "charters = Some a" for a
  proof -
    from that assms have "a < length h" by (simp add: live_def)
    with store_prefix_nth [OF p] f show ?thesis by simp
  qed
  with f b p show ?thesis by (simp add: 1)
qed

theorem inputs_not_mutated_witness:
  "live [[beta, alpha]] (Some 0) \<and>
   filteredCharters ordinalCompare [[beta, alpha]] (Some 0) initial_config =
     ([[beta, alpha], [alpha, beta]], 1) \<and>
   take (length [[beta, alpha]]) [[beta, alpha], [alpha, beta]] = [[beta, alpha]] \<and>
   [[beta, alpha], [alpha, beta]] ! 0 = [[beta, alpha]] ! 0 \<and> (1::nat) \<noteq> 0"
proof -
  have l: "live [[beta, alpha]] (Some 0)" by (simp add: live_def)
  have 1: "filteredCharters ordinalCompare [[beta, alpha]] (Some 0) initial_config =
     ([[beta, alpha], [alpha, beta]], 1)" by code_simp
  note t = inputs_not_mutated [OF l, of ordinalCompare initial_config]
  from t have "take (length [[beta, alpha]]) [[beta, alpha], [alpha, beta]] = [[beta, alpha]] \<and>
     ([[beta, alpha], [alpha, beta]] ! 0 = [[beta, alpha]] ! 0 \<and> (1::nat) \<noteq> 0)"
    unfolding 1 Let_def prod.case by blast
  then show ?thesis using l 1 by blast
qed

text \<open>
  C10. When \<^verbatim>\<open>charters\<close> is null or undefined the result is the empty list for every
  configuration: the callback allocates one empty array and does nothing else.
\<close>

theorem absent_charters_empty:
  "filterAndSort lc None cfg = [] \<and> filteredCharters lc h None cfg = (h @ [[]], length h)"
  by (simp add: filterAndSort_def filteredCharters_None)

text \<open>
  C7. With \<^verbatim>\<open>sortBy = 'steward'\<close> two charters are compared by \<^verbatim>\<open>localeCompare\<close> on
  the trimmed first and last name of their owner profiles, the empty string standing
  for a missing profile; \<^verbatim>\<open>'desc'\<close> negates the comparison. The strings compared
  have no white space at either end. For a consistent \<^verbatim>\<open>localeCompare\<close> the result
  has the smaller trimmed name first when ascending and the greater when descending.
\<close>

theorem steward_comparison:
  assumes "sortBy cfg = Steward"
  shows "comparison lc (sortBy cfg) a b = lc (spec_steward_key a) (spec_steward_key b) \<and>
         compareCharters lc cfg a b =
           (if sortDirection cfg = Desc then - lc (spec_steward_key a) (spec_steward_key b)
            else lc (spec_steward_key a) (spec_steward_key b)) \<and>
         (stewardName a = [] \<or>
            \<not> is_space (hd (stewardName a)) \<and> \<not> is_space (last (stewardName a))) \<and>
         (consistent_comparator lc \<longrightarrow>
            sorted_wrt (spec_in_order lc Steward (sortDirection cfg))
              (filterAndSort lc (Some cs) cfg))"
proof -
  have cmp: "compareCharters lc cfg a b =
      (if sortDirection cfg = Desc then - lc (spec_steward_key a) (spec_steward_key b)
       else lc (spec_steward_key a) (spec_steward_key b))"
    using assms
    by (cases "sortDirection cfg"; simp add: compareCharters_def spec_steward_key_eq)
  have ends: "stewardName a = [] \<or>
      \<not> is_space (hd (stewardName a)) \<and> \<not> is_space (last (stewardName a))"
  proof (cases "profiles a")
    case None
    then show ?thesis by (simp add: stewardName_def)
  next
    case (Some p)
    then have "stewardName a = spec_trimmed (full_name p)"
      by (simp add: stewardName_def trim_spec_trimmed)
    then show ?thesis using spec_trimmed_ends [of "full_name p"] by auto
  qed
  have "sorted_wrt (spec_in_order lc Steward (sortDirection cfg)) (filterAndSort lc (Some cs) cfg)"
    if "consistent_comparator lc"
    using that assms in_order_filterAndSort [of cfg lc "Some cs"] by simp
  then show ?thesis using assms cmp ends by (simp add: spec_steward_key_eq)
qed

theorem steward_comparison_witness:
  "sortBy (initial_config\<lparr>sortBy := Steward, sortDirection := Desc\<rparr>) = Steward \<and>
   consistent_comparator ordinalCompare \<and>
   spec_steward_key alpha = ''Jane Doe'' \<and> spec_steward_key beta = [] \<and>
   spec_steward_key delta = ''Zed Poe'' \<and>
   compareCharters ordinalCompare (initial_config\<lparr>sortBy := Steward, sortDirection := Desc\<rparr>)
     alpha delta = - ordinalCompare ''Jane Doe'' ''Zed Poe'' \<and>
   compareCharters ordinalCompare (initial_config\<lparr>sortBy := Steward\<rparr>)
     alpha delta = ordinalCompare ''Jane Doe'' ''Zed Poe'' \<and>
   ordinalCompare ''Jane Doe'' ''Zed Poe'' = - 1 \<and>
   \<not> is_space (hd (stewardName delta)) \<and> \<not> is_space (last (stewardName delta)) \<and>
   filterAndSort ordinalCompare (Some [alpha, beta, delta])
     (initial_config\<lparr>sortBy := Steward, sortDirection := Desc\<rparr>) = [delta, alpha, beta] \<and>
   filterAndSort ordinalCompare (Some [alpha, beta, delta])
     (initial_config\<lparr>sortBy := Steward\<rparr>) = [beta, alpha, delta] \<and>
   sorted_wrt (spec_in_order ordinalCompare Steward Desc)
     (filterAndSort ordinalCompare (Some [alpha, beta, delta])
        (initial_config\<lparr>sortBy := Steward, sortDirection := Desc\<rparr>)) \<and>
   sorted_wrt (spec_in_order ordinalCompare Steward Asc)
     (filterAndSort ordinalCompare (Some [alpha, beta, delta]) (initial_config\<lparr>sortBy := Steward\<rparr>))"
proof -
  let ?desc = "initial_config\<lparr>sortBy := Steward, sortDirection := Desc\<rparr>"
  let ?asc = "initial_config\<lparr>sortBy := Steward\<rparr>"
  have kd: "sortBy ?desc = Steward" by simp
  have ka: "sortBy ?asc = Steward" by simp
  have dd: "sortDirection ?desc = Desc" by simp
  have da: "sortDirection ?asc = Asc" by (simp add: initial_config_def)
  have a: "spec_steward_key alpha = ''Jane Doe''" by code_simp
  have b: "spec_steward_key beta = []" by code_simp
  have z: "spec_steward_key delta = ''Zed Poe''" by code_simp
  have v: "ordinalCompare ''Jane Doe'' ''Zed Poe'' = - 1" by code_simp
  have n: "stewardName delta \<noteq> []" by code_simp
  have ed: "filterAndSort ordinalCompare (Some [alpha, beta, delta]) ?desc = [delta, alpha, beta]"
    by code_simp
  have ea: "filterAndSort ordinalCompare (Some [alpha, beta, delta]) ?asc = [beta, alpha, delta]"
    by code_simp
  note td = steward_comparison [OF kd, of ordinalCompare alpha delta "[alpha, beta, delta]"]
  note ta = steward_comparison [OF ka, of ordinalCompare alpha delta "[alpha, beta, delta]"]
  note tz = steward_comparison [OF kd, of ordinalCompare delta delta "[alpha, beta, delta]"]
  from td have "compareCharters ordinalCompare ?desc alpha delta =
      (if sortDirection ?desc = Desc
       then - ordinalCompare (spec_steward_key alpha) (spec_steward_key delta)
       else ordinalCompare (spec_steward_key alpha) (spec_steward_key delta))" by blast
  then have cd: "compareCharters ordinalCompare ?desc alpha delta =
      - ordinalCompare ''Jane Doe'' ''Zed Poe''"
    by (simp add: a z)
  from ta have "compareCharters ordinalCompare ?asc alpha delta =
      (if sortDirection ?asc = Desc
       then - ordinalCompare (spec_steward_key alpha) (spec_steward_key delta)
       else ordinalCompare (spec_steward_key alpha) (spec_steward_key delta))" by blast
  then have ca: "compareCharters ordinalCompare ?asc alpha delta =
      ordinalCompare ''Jane Doe'' ''Zed Poe''"
    by (simp add: da a z)
  from tz have "stewardName delta = [] \<or>
      \<not> is_space (hd (stewardName delta)) \<and> \<not> is_space (last (stewardName delta))" by blast
  with n have e: "\<not> is_space (hd (stewardName delta)) \<and> \<not> is_space (last (stewardName delta))"
    by blast
  from td consistent_ordinalCompare
  have "sorted_wrt (spec_in_order ordinalCompare Steward (sortDirection ?desc))
     (filterAndSort ordinalCompare (Some [alpha, beta, delta]) ?desc)" by blast
  then have sd: "sorted_wrt (spec_in_order ordinalCompare Steward Desc)
     (filterAndSort ordinalCompare (Some [alpha, beta, delta]) ?desc)" by (simp only: dd)
  from ta consistent_ordinalCompare
  have "sorted_wrt (spec_in_order ordinalCompare Steward (sortDirection ?asc))
     (filterAndSort ordinalCompare (Some [alpha, beta, delta]) ?asc)" by blast
  then have sa: "sorted_wrt (spec_in_order ordinalCompare Steward Asc)
     (filterAndSort ordinalCompare (Some [alpha, beta, delta]) ?asc)" by (simp only: da)
  show ?thesis using kd consistent_ordinalCompare a b z cd ca v e ed ea sd sa by blast
qed

text \<open>
  C9, as the code has it. \<^verbatim>\<open>search\<close> is lower-cased and matched as typed, white
  space at its ends included; nothing trims it. Every charter returned for a
  \<^verbatim>\<open>search\<close> is also returned, as often, for the trimmed \<^verbatim>\<open>search\<close>.
\<close>

theorem search_used_untrimmed:
  "mset (filterAndSort lc (Some cs) cfg) \<subseteq>#
   mset (filterAndSort lc (Some cs) (cfg\<lparr>search := trim (search cfg)\<rparr>))"
proof -
  let ?t = "cfg\<lparr>search := trim (search cfg)\<rparr>"
  have "mset (applyDepartment cfg (applySearch cfg cs)) \<subseteq>#
        mset (applyDepartment ?t (applySearch ?t cs))"
    using applySearch_trim_mono [of cfg cs]
    by (simp add: applyDepartment_def multiset_filter_mono)
  then show ?thesis by (simp add: filterAndSort_def mset_sort_cmp)
qed

text \<open>
  The converse fails, so the two results differ: \<open>alpha\<close> is found by \<^verbatim>\<open>alpha\<close> and
  not by \<^verbatim>\<open>alpha\<close> with a space in front.
\<close>

theorem search_used_untrimmed_counterexample:
  "filterAndSort ordinalCompare (Some [alpha]) (initial_config\<lparr>search := '' alpha''\<rparr>) \<noteq>
   filterAndSort ordinalCompare (Some [alpha]) (initial_config\<lparr>search := trim '' alpha''\<rparr>)"
  by code_simp

end
